theory Spec2Isabelle
  imports Main "HOL-Library.Word" "HOL-Library.Sublist"
begin

section \<open>The bounded message queue of MessageQueue.cpp\<close>

text \<open>
  \<^verbatim>\<open>std::size_t\<close> is the unsigned 64-bit integer of the POSIX (LP64) targets the
  implementation class \<^verbatim>\<open>MessageQueuePosix\<close> is written for: arithmetic wraps around and
  comparisons are unsigned.
\<close>

type_synonym size_t = "64 word"

text \<open>
  The fields of \<^verbatim>\<open>MessageQueuePosix\<close>. The \<^verbatim>\<open>std::deque\<close> of message handles is a list
  with its front at the head. The mutex and the condition variable hold no data: mutual
  exclusion makes every method body below one atomic step, and what the condition variable
  does to a waiting thread is modelled in \<open>cond_wait\<close>.
\<close>

record 'm MessageQueuePosix =
  m_max_capacity :: size_t
  m_cancelled :: bool
  m_queue :: "'m list"

subsection \<open>The operations of std::deque that the queue uses\<close>

definition deque_size :: "'m list \<Rightarrow> size_t" where
  "deque_size q = of_nat (length q)"

definition front :: "'m list \<Rightarrow> 'm" where
  "front q = hd q"

definition pop_front :: "'m list \<Rightarrow> 'm list" where
  "pop_front q = tl q"

definition push_back :: "'m list \<Rightarrow> 'm \<Rightarrow> 'm list" where
  "push_back q message = q @ [message]"

subsection \<open>Constructor, push, cancel, is_cancelled, size\<close>

definition create :: "size_t \<Rightarrow> 'm MessageQueuePosix" where
  "create max_capacity =
     \<lparr>m_max_capacity = max_capacity, m_cancelled = False, m_queue = []\<rparr>"

text \<open>
  \<^verbatim>\<open>push\<close> returns the count and the updated queue. The call \<^verbatim>\<open>m_cond.signal()\<close> made when
  the count becomes 1 changes no field of the queue.
\<close>

definition push :: "'m \<Rightarrow> 'm MessageQueuePosix \<Rightarrow> size_t \<times> 'm MessageQueuePosix" where
  "push message s =
     (let ret = deque_size (m_queue s) in
      if ret < m_max_capacity s
      then (ret + 1, s\<lparr>m_queue := push_back (m_queue s) message\<rparr>)
      else (0, s))"

definition cancel :: "'m MessageQueuePosix \<Rightarrow> 'm MessageQueuePosix" where
  "cancel s = s\<lparr>m_cancelled := True\<rparr>"

definition is_cancelled :: "'m MessageQueuePosix \<Rightarrow> bool" where
  "is_cancelled s = m_cancelled s"

definition size_mq :: "'m MessageQueuePosix \<Rightarrow> size_t" where
  "size_mq s = deque_size (m_queue s)"

subsection \<open>pop\<close>

text \<open>
  The out-parameter \<^verbatim>\<open>message\<close> is passed in with the value the caller's variable holds
  and handed back with the value it holds at return: untouched means handed back as it
  came. The result is the returned count, the out-parameter and the updated queue.

  The non-blocking branch of \<^verbatim>\<open>pop\<close>:
\<close>

definition pop_nonblocking ::
  "'m \<Rightarrow> 'm MessageQueuePosix \<Rightarrow> size_t \<times> 'm \<times> 'm MessageQueuePosix" where
  "pop_nonblocking message s =
     (let ret = deque_size (m_queue s) in
      if 0 < ret
      then (ret, front (m_queue s), s\<lparr>m_queue := pop_front (m_queue s)\<rparr>)
      else (ret, message, s))"

text \<open>
  \<^verbatim>\<open>m_cond.wait(m_mutex)\<close> releases the mutex, suspends the caller and takes the mutex
  again when the caller wakes up. What the caller finds then is the queue as the other
  threads left it: each of them ran some of the other methods that change a field, each
  under the mutex. A wake-up is therefore the list of what the others did meanwhile; the
  empty list is a spurious wake-up. \<open>Other_pop m\<close> is another thread's pop whose own
  handle variable held \<open>m\<close>.
\<close>

datatype 'm action = Other_push 'm | Other_pop 'm | Other_cancel

fun act :: "'m action \<Rightarrow> 'm MessageQueuePosix \<Rightarrow> 'm MessageQueuePosix" where
  "act (Other_push message) s = snd (push message s)"
| "act (Other_pop message) s = snd (snd (pop_nonblocking message s))"
| "act Other_cancel s = cancel s"

definition cond_wait :: "'m action list \<Rightarrow> 'm MessageQueuePosix \<Rightarrow> 'm MessageQueuePosix" where
  "cond_wait others s = fold act others s"

text \<open>
  The blocking branch of \<^verbatim>\<open>pop\<close>: the \<^verbatim>\<open>while (!m_cancelled)\<close> loop, with the local
  \<^verbatim>\<open>ret\<close> carried along. The first argument lists the wake-ups still to come; when the
  caller reaches \<^verbatim>\<open>wait\<close> and none is left it stays suspended, and the call does not
  return: \<open>None\<close>.
\<close>

fun pop_blocking_loop ::
  "'m action list list \<Rightarrow> size_t \<Rightarrow> 'm \<Rightarrow> 'm MessageQueuePosix \<Rightarrow>
     (size_t \<times> 'm \<times> 'm MessageQueuePosix) option" where
  "pop_blocking_loop wakeups ret message s =
     (if \<not> m_cancelled s then
        (let ret = deque_size (m_queue s) in
         if 0 < ret
         then Some (ret, front (m_queue s), s\<lparr>m_queue := pop_front (m_queue s)\<rparr>)
         else (case wakeups of
                 [] \<Rightarrow> None
               | others # wakeups' \<Rightarrow>
                   (let s = cond_wait others s in
                    if m_cancelled s then Some (ret, message, s)
                    else pop_blocking_loop wakeups' ret message s)))
      else Some (ret, message, s))"

definition pop ::
  "'m \<Rightarrow> bool \<Rightarrow> 'm action list list \<Rightarrow> 'm MessageQueuePosix \<Rightarrow>
     (size_t \<times> 'm \<times> 'm MessageQueuePosix) option" where
  "pop message blocking wakeups s =
     (if blocking then pop_blocking_loop wakeups 0 message s
      else Some (pop_nonblocking message s))"

subsection \<open>The capacity invariant\<close>

definition invar :: "'m MessageQueuePosix \<Rightarrow> bool" where
  "invar s \<longleftrightarrow> length (m_queue s) \<le> unat (m_max_capacity s)"

subsection \<open>Executions\<close>

text \<open>
  The mutex serialises the method bodies, so an execution of the queue by any number of
  threads is a sequence of critical sections, each one a call. A blocking pop that finds
  the queue empty and not cancelled suspends its caller and leaves the queue as it is; the
  caller's next critical section, after its wake-up, is again the body of the loop
  (\<open>pop_wakeup\<close> and \<open>pop_linearised\<close> below), so it appears as a further \<open>Pop\<close>
  entry. Every call is recorded with what it answered.
\<close>

datatype 'm call = Push 'm | Pop 'm bool | Cancel | Is_cancelled | Size

datatype 'm answer =
  Pushed size_t | Popped size_t 'm | Suspended | Cancelled | Flag bool | Sized size_t

fun step :: "'m call \<Rightarrow> 'm MessageQueuePosix \<Rightarrow> 'm answer \<times> 'm MessageQueuePosix" where
  "step (Push message) s = (Pushed (fst (push message s)), snd (push message s))"
| "step (Pop message blocking) s =
     (case pop message blocking [] s of
        None \<Rightarrow> (Suspended, s)
      | Some (ret, message', s') \<Rightarrow> (Popped ret message', s'))"
| "step Cancel s = (Cancelled, cancel s)"
| "step Is_cancelled s = (Flag (is_cancelled s), s)"
| "step Size s = (Sized (size_mq s), s)"

fun run ::
  "'m call list \<Rightarrow> 'm MessageQueuePosix \<Rightarrow> ('m call \<times> 'm answer) list \<times> 'm MessageQueuePosix" where
  "run [] s = ([], s)"
| "run (c # cs) s =
     (let (a, s') = step c s; (h, s'') = run cs s' in ((c, a) # h, s''))"

text \<open>The messages of the successful pushes and of the successful pops, in order.\<close>

fun pushes :: "('m call \<times> 'm answer) list \<Rightarrow> 'm list" where
  "pushes [] = []"
| "pushes ((Push message, Pushed ret) # h) =
     (if ret = 0 then pushes h else message # pushes h)"
| "pushes (_ # h) = pushes h"

fun pops :: "('m call \<times> 'm answer) list \<Rightarrow> 'm list" where
  "pops [] = []"
| "pops ((Pop message blocking, Popped ret message') # h) =
     (if ret = 0 then pops h else message' # pops h)"
| "pops (_ # h) = pops h"

text \<open>What another thread does while a caller waits is itself a call of the execution.\<close>

fun as_call :: "'m action \<Rightarrow> 'm call" where
  "as_call (Other_push message) = Push message"
| "as_call (Other_pop message) = Pop message False"
| "as_call Other_cancel = Cancel"

text \<open>
  What the other threads did before a blocking pop returned: the wake-ups the caller went
  through, in order. It goes to \<^verbatim>\<open>wait\<close>, and so through the next wake-up, whenever it
  finds the queue not cancelled and empty; the wake-ups after its return are not its own.
\<close>

fun waited :: "'m action list list \<Rightarrow> 'm MessageQueuePosix \<Rightarrow> 'm action list" where
  "waited [] s = []"
| "waited (others # wakeups) s =
     (if \<not> m_cancelled s \<and> \<not> 0 < deque_size (m_queue s)
      then others @ waited wakeups (cond_wait others s)
      else [])"

section \<open>The typed wrapper MessageQueueT of MessageQueue.h\<close>

text \<open>
  Modelled from the spec: \<^verbatim>\<open>Message.h\<close>, which declares \<^verbatim>\<open>IMessage\<close> and the handle type
  \<^verbatim>\<open>Message\<close>, is not among the sources. The spec describes a message as a handle with
  shared ownership to a polymorphic payload, conceptually \<^verbatim>\<open>shared_ptr<Payload>\<close>. An
  object behind a handle is either a \<^verbatim>\<open>MessageImpl<M>\<close> of the typed queue, holding its
  payload, or of some other class derived from \<^verbatim>\<open>IMessage\<close> (an \<^verbatim>\<open>ITask\<close> of Task.h, say);
  a handle is such an object or null (\<open>None\<close>).
\<close>

datatype 'p IMessage = MessageImpl (m_payload: 'p) | Other_IMessage

type_synonym 'p Message = "'p IMessage option"

text \<open>
  \<^verbatim>\<open>std::dynamic_pointer_cast<MessageImpl<M>>\<close>: the same handle when the object is a
  \<^verbatim>\<open>MessageImpl<M>\<close>, the null handle otherwise.
\<close>

fun dynamic_pointer_cast :: "'p Message \<Rightarrow> 'p Message" where
  "dynamic_pointer_cast (Some (MessageImpl payload)) = Some (MessageImpl payload)"
| "dynamic_pointer_cast (Some Other_IMessage) = None"
| "dynamic_pointer_cast None = None"

text \<open>The two assertions of \<^verbatim>\<open>MessageQueueT<M>::pop\<close>, in the order of the source.\<close>

datatype assertion = Assert_not_null | Assert_same_pointer

text \<open>The member \<^verbatim>\<open>m_impl\<close> is the queue made by \<^verbatim>\<open>IMessageQueue::create\<close>.\<close>

definition MessageQueueT :: "size_t \<Rightarrow> 'p Message MessageQueuePosix" where
  "MessageQueueT max_capacity = create max_capacity"

definition MessageQueueT_push ::
  "'p \<Rightarrow> 'p Message MessageQueuePosix \<Rightarrow> size_t \<times> 'p Message MessageQueuePosix" where
  "MessageQueueT_push message m_impl =
     (let new_message = Some (MessageImpl message) in push new_message m_impl)"

text \<open>
  While a caller of the typed pop waits, the other threads act through the typed queue
  too: their pushes box the payload, their pops start from a null handle.
\<close>

fun boxed :: "'p action \<Rightarrow> 'p Message action" where
  "boxed (Other_push message) = Other_push (Some (MessageImpl message))"
| "boxed (Other_pop dst_message) = Other_pop None"
| "boxed Other_cancel = Other_cancel"

text \<open>
  \<^verbatim>\<open>MessageQueueT<M>::pop\<close>. A failed \<^verbatim>\<open>assert\<close> aborts the program: \<open>Inl\<close> of the
  assertion. \<open>None\<close> is, as for \<open>pop\<close>, a caller that stays suspended.
\<close>

definition MessageQueueT_pop ::
  "'p \<Rightarrow> bool \<Rightarrow> 'p action list list \<Rightarrow> 'p Message MessageQueuePosix \<Rightarrow>
     (assertion + size_t \<times> 'p \<times> 'p Message MessageQueuePosix) option" where
  "MessageQueueT_pop dst_message blocking wakeups m_impl =
     (case pop None blocking (map (map boxed) wakeups) m_impl of
        None \<Rightarrow> None
      | Some (ret, abstract_message, m_impl') \<Rightarrow>
          if 0 < ret then
            if abstract_message = None then Some (Inl Assert_not_null)
            else
              (let message = dynamic_pointer_cast abstract_message in
               if message \<noteq> abstract_message then Some (Inl Assert_same_pointer)
               else Some (Inr (ret, m_payload (the message), m_impl')))
          else Some (Inr (ret, dst_message, m_impl')))"

definition MessageQueueT_cancel :: "'p Message MessageQueuePosix \<Rightarrow> 'p Message MessageQueuePosix" where
  "MessageQueueT_cancel m_impl = cancel m_impl"

definition MessageQueueT_is_cancelled :: "'p Message MessageQueuePosix \<Rightarrow> bool" where
  "MessageQueueT_is_cancelled m_impl = is_cancelled m_impl"

definition MessageQueueT_size :: "'p Message MessageQueuePosix \<Rightarrow> size_t" where
  "MessageQueueT_size m_impl = size_mq m_impl"

subsection \<open>Executions of the typed queue\<close>

datatype 'p callT = PushT 'p | PopT 'p bool | CancelT | Is_cancelledT | SizeT

fun stepT ::
  "'p callT \<Rightarrow> 'p Message MessageQueuePosix \<Rightarrow>
     assertion + 'p answer \<times> 'p Message MessageQueuePosix" where
  "stepT (PushT message) m_impl =
     Inr (Pushed (fst (MessageQueueT_push message m_impl)),
          snd (MessageQueueT_push message m_impl))"
| "stepT (PopT dst_message blocking) m_impl =
     (case MessageQueueT_pop dst_message blocking [] m_impl of
        None \<Rightarrow> Inr (Suspended, m_impl)
      | Some (Inl a) \<Rightarrow> Inl a
      | Some (Inr (ret, dst_message', m_impl')) \<Rightarrow> Inr (Popped ret dst_message', m_impl'))"
| "stepT CancelT m_impl = Inr (Cancelled, MessageQueueT_cancel m_impl)"
| "stepT Is_cancelledT m_impl = Inr (Flag (MessageQueueT_is_cancelled m_impl), m_impl)"
| "stepT SizeT m_impl = Inr (Sized (MessageQueueT_size m_impl), m_impl)"

text \<open>An execution stops at the first assertion that fails.\<close>

fun runT ::
  "'p callT list \<Rightarrow> 'p Message MessageQueuePosix \<Rightarrow>
     assertion + 'p answer list \<times> 'p Message MessageQueuePosix" where
  "runT [] m_impl = Inr ([], m_impl)"
| "runT (c # cs) m_impl =
     (case stepT c m_impl of
        Inl a \<Rightarrow> Inl a
      | Inr (r, m_impl') \<Rightarrow>
          (case runT cs m_impl' of
             Inl a \<Rightarrow> Inl a
           | Inr (rs, m_impl'') \<Rightarrow> Inr (r # rs, m_impl'')))"

text \<open>Every handle in the queue is non-null and holds a \<^verbatim>\<open>MessageImpl<M>\<close>.\<close>

fun is_MessageImpl :: "'p Message \<Rightarrow> bool" where
  "is_MessageImpl (Some (MessageImpl payload)) = True"
| "is_MessageImpl (Some Other_IMessage) = False"
| "is_MessageImpl None = False"

definition all_boxed :: "'p Message MessageQueuePosix \<Rightarrow> bool" where
  "all_boxed m_impl = list_all is_MessageImpl (m_queue m_impl)"

section \<open>Properties\<close>

declare pop_blocking_loop.simps [simp del]

lemma unat_deque_size:
  "invar s \<Longrightarrow> unat (deque_size (m_queue s)) = length (m_queue s)"
proof -
  assume "invar s"
  then have "length (m_queue s) \<le> unat (m_max_capacity s)"
    by (simp add: invar_def)
  moreover have "unat (m_max_capacity s) < 2 ^ 64"
    using unsigned_less [of "m_max_capacity s"] by simp
  ultimately have "length (m_queue s) < 2 ^ 64"
    by linarith
  then show ?thesis
    by (simp add: deque_size_def unat_of_nat)
qed

lemma deque_size_pos_nonempty: "0 < deque_size q \<Longrightarrow> q \<noteq> []"
  by (auto simp: deque_size_def)

lemma deque_size_eq_0_iff: "invar s \<Longrightarrow> deque_size (m_queue s) = 0 \<longleftrightarrow> m_queue s = []"
  using unat_deque_size [of s] by (auto simp: deque_size_def unat_eq_0)

lemma deque_size_less_iff:
  "invar s \<Longrightarrow>
   deque_size (m_queue s) < m_max_capacity s \<longleftrightarrow> length (m_queue s) < unat (m_max_capacity s)"
  by (simp add: word_less_nat_alt unat_deque_size)

lemma unat_succ_below: "(ret :: size_t) < cap \<Longrightarrow> unat (ret + 1) = unat ret + 1"
proof -
  assume "ret < cap"
  then have "unat ret < unat cap" by (simp add: word_less_nat_alt)
  moreover have "unat cap < 2 ^ 64" using unsigned_less [of cap] by simp
  ultimately have "unat ret + 1 < 2 ^ 64" by linarith
  then show ?thesis by (simp add: unat_word_ariths)
qed

lemma word_ge_1_iff: "1 \<le> (w :: size_t) \<longleftrightarrow> w \<noteq> 0"
  by (simp add: word_le_nat_alt unat_eq_0 Suc_le_eq unat_gt_0)

subsection \<open>push\<close>

lemma push_full:
  "invar s \<Longrightarrow> length (m_queue s) = unat (m_max_capacity s) \<Longrightarrow> push message s = (0, s)"
  by (simp add: push_def deque_size_less_iff)

lemma push_below:
  assumes "invar s" and "length (m_queue s) \<noteq> unat (m_max_capacity s)"
  shows "push message s = (deque_size (m_queue s) + 1, s\<lparr>m_queue := m_queue s @ [message]\<rparr>)"
    and "unat (deque_size (m_queue s) + 1) = length (m_queue s) + 1"
proof -
  from assms have "length (m_queue s) < unat (m_max_capacity s)"
    by (simp add: invar_def)
  with assms(1) have below: "deque_size (m_queue s) < m_max_capacity s"
    by (simp add: deque_size_less_iff)
  then show "push message s = (deque_size (m_queue s) + 1, s\<lparr>m_queue := m_queue s @ [message]\<rparr>)"
    by (simp add: push_def push_back_def)
  from below assms(1) show "unat (deque_size (m_queue s) + 1) = length (m_queue s) + 1"
    by (simp add: unat_succ_below unat_deque_size)
qed

text \<open>
  Claim C1. In every state of the queue (the stored count never exceeds the capacity, see
  C7) and for every message, \<open>push\<close> returns 0 exactly when the stored count equals
  \<open>m_max_capacity\<close>, and then changes nothing; otherwise it appends the message at the
  tail and returns the previous count plus one, which is at least 1.
\<close>

theorem push_result:
  assumes "invar s"
  shows "(fst (push message s) = 0 \<longleftrightarrow> length (m_queue s) = unat (m_max_capacity s))
     \<and> (length (m_queue s) = unat (m_max_capacity s) \<longrightarrow> push message s = (0, s))
     \<and> (length (m_queue s) \<noteq> unat (m_max_capacity s) \<longrightarrow>
          push message s = (deque_size (m_queue s) + 1, s\<lparr>m_queue := m_queue s @ [message]\<rparr>)
          \<and> unat (fst (push message s)) = length (m_queue s) + 1
          \<and> 1 \<le> fst (push message s))"
proof (cases "length (m_queue s) = unat (m_max_capacity s)")
  case True
  with assms show ?thesis by (simp add: push_full)
next
  case False
  note b = push_below(1) [OF assms False, of message]
  from b push_below(2) [OF assms False]
  have "unat (fst (push message s)) = length (m_queue s) + 1" by simp
  moreover from this have "fst (push message s) \<noteq> 0" by (auto simp: unat_eq_0)
  ultimately show ?thesis using False b by (simp add: word_ge_1_iff)
qed

theorem push_result_witness:
  "invar \<lparr>m_max_capacity = 2, m_cancelled = False, m_queue = [''a'']\<rparr>
   \<and> push ''b'' \<lparr>m_max_capacity = 2, m_cancelled = False, m_queue = [''a'']\<rparr>
       = (2, \<lparr>m_max_capacity = 2, m_cancelled = False, m_queue = [''a'', ''b'']\<rparr>)
   \<and> invar \<lparr>m_max_capacity = 2, m_cancelled = False, m_queue = [''a'', ''b'']\<rparr>
   \<and> push ''c'' \<lparr>m_max_capacity = 2, m_cancelled = False, m_queue = [''a'', ''b'']\<rparr>
       = (0, \<lparr>m_max_capacity = 2, m_cancelled = False, m_queue = [''a'', ''b'']\<rparr>)"
proof -
  have i1: "invar \<lparr>m_max_capacity = 2, m_cancelled = False, m_queue = [''a'']\<rparr>"
    and i2: "invar \<lparr>m_max_capacity = 2, m_cancelled = False, m_queue = [''a'', ''b'']\<rparr>"
    by (simp_all add: invar_def)
  show ?thesis
    using i1 i2 push_result [OF i1, of "''b''"] push_result [OF i2, of "''c''"]
    by (simp add: deque_size_def)
qed

text \<open>
  Claim C9. \<open>push\<close> does not read the cancellation flag: its count and what it does to
  the queue are the same whatever the flag is, and the flag stays as it was. So on a
  cancelled queue below capacity it still appends the message at the tail and returns the
  new length.
\<close>

theorem push_ignores_cancellation:
  "push message (s\<lparr>m_cancelled := c\<rparr>)
     = (fst (push message s), (snd (push message s))\<lparr>m_cancelled := c\<rparr>)
   \<and> (m_cancelled s \<and> invar s \<and> length (m_queue s) < unat (m_max_capacity s) \<longrightarrow>
        push message s = (deque_size (m_queue s) + 1, s\<lparr>m_queue := m_queue s @ [message]\<rparr>)
        \<and> unat (fst (push message s)) = length (m_queue s) + 1)"
proof -
  have "push message (s\<lparr>m_cancelled := c\<rparr>)
     = (fst (push message s), (snd (push message s))\<lparr>m_cancelled := c\<rparr>)"
    by (simp add: push_def Let_def)
  moreover have "push message s = (deque_size (m_queue s) + 1, s\<lparr>m_queue := m_queue s @ [message]\<rparr>)
        \<and> unat (fst (push message s)) = length (m_queue s) + 1"
    if "invar s" and "length (m_queue s) < unat (m_max_capacity s)"
    using push_below(1) [of s message] push_below(2) [of s] that by simp
  ultimately show ?thesis by blast
qed

theorem push_ignores_cancellation_witness:
  "m_cancelled \<lparr>m_max_capacity = 2, m_cancelled = True, m_queue = [''a'']\<rparr>
   \<and> invar \<lparr>m_max_capacity = 2, m_cancelled = True, m_queue = [''a'']\<rparr>
   \<and> push ''b'' \<lparr>m_max_capacity = 2, m_cancelled = True, m_queue = [''a'']\<rparr>
       = (2, \<lparr>m_max_capacity = 2, m_cancelled = True, m_queue = [''a'', ''b'']\<rparr>)"
proof -
  have i: "invar \<lparr>m_max_capacity = 2, m_cancelled = True, m_queue = [''a'']\<rparr>"
    by (simp add: invar_def)
  show ?thesis
    using i push_ignores_cancellation
      [where message = "''b''" and c = True
         and s = "\<lparr>m_max_capacity = 2, m_cancelled = True, m_queue = [''a'']\<rparr>"]
    by (simp add: deque_size_def)
qed

subsection \<open>Non-blocking pop\<close>

lemma pop_nonblocking_empty: "m_queue s = [] \<Longrightarrow> pop_nonblocking message s = (0, message, s)"
  by (simp add: pop_nonblocking_def deque_size_def)

lemma pop_nonblocking_nonempty:
  assumes "invar s" and "m_queue s \<noteq> []"
  shows "pop_nonblocking message s =
           (deque_size (m_queue s), hd (m_queue s), s\<lparr>m_queue := tl (m_queue s)\<rparr>)"
    and "0 < deque_size (m_queue s)"
proof -
  from assms show pos: "0 < deque_size (m_queue s)"
    by (simp add: word_gt_0 deque_size_eq_0_iff)
  then show "pop_nonblocking message s =
           (deque_size (m_queue s), hd (m_queue s), s\<lparr>m_queue := tl (m_queue s)\<rparr>)"
    by (simp add: pop_nonblocking_def front_def pop_front_def)
qed

text \<open>
  Claim C3. In every state of the queue, \<open>pop\<close> with \<open>blocking = false\<close> returns 0
  exactly when the queue is empty, and then hands the out-parameter back untouched and
  leaves the queue as it is; otherwise it removes the head and nothing else, stores it in
  the out-parameter and returns the count before the removal, which is at least 1. It
  returns whatever the other threads do: it never waits.
\<close>

theorem pop_nonblocking_result:
  assumes "invar s"
  shows "(fst (pop_nonblocking message s) = 0 \<longleftrightarrow> m_queue s = [])
     \<and> (m_queue s = [] \<longrightarrow> pop_nonblocking message s = (0, message, s))
     \<and> (m_queue s \<noteq> [] \<longrightarrow>
          pop_nonblocking message s =
            (deque_size (m_queue s), hd (m_queue s), s\<lparr>m_queue := tl (m_queue s)\<rparr>)
          \<and> unat (fst (pop_nonblocking message s)) = length (m_queue s)
          \<and> 1 \<le> fst (pop_nonblocking message s)
          \<and> hd (m_queue s) # m_queue (snd (snd (pop_nonblocking message s))) = m_queue s)
     \<and> pop message False wakeups s = Some (pop_nonblocking message s)"
proof (cases "m_queue s = []")
  case True
  then show ?thesis by (simp add: pop_nonblocking_empty pop_def)
next
  case False
  note n = pop_nonblocking_nonempty [OF assms False]
  from n(2) have "deque_size (m_queue s) \<noteq> 0" by simp
  with False n(1) [of message] assms show ?thesis
    by (simp add: pop_def word_ge_1_iff unat_deque_size)
qed

theorem pop_nonblocking_result_witness:
  "invar \<lparr>m_max_capacity = 2, m_cancelled = False, m_queue = [''a'', ''b'']\<rparr>
   \<and> pop ''x'' False [] \<lparr>m_max_capacity = 2, m_cancelled = False, m_queue = [''a'', ''b'']\<rparr>
       = Some (2, ''a'', \<lparr>m_max_capacity = 2, m_cancelled = False, m_queue = [''b'']\<rparr>)
   \<and> invar \<lparr>m_max_capacity = 2, m_cancelled = False, m_queue = ([] :: string list)\<rparr>
   \<and> pop ''x'' False [] \<lparr>m_max_capacity = 2, m_cancelled = False, m_queue = []\<rparr>
       = Some (0, ''x'', \<lparr>m_max_capacity = 2, m_cancelled = False, m_queue = []\<rparr>)"
proof -
  have i1: "invar \<lparr>m_max_capacity = 2, m_cancelled = False, m_queue = [''a'', ''b'']\<rparr>"
    and i2: "invar \<lparr>m_max_capacity = 2, m_cancelled = False, m_queue = ([] :: string list)\<rparr>"
    by (simp_all add: invar_def)
  show ?thesis
    using i1 i2 pop_nonblocking_result [OF i1, of "''x''" "[]"]
      pop_nonblocking_result [OF i2, of "''x''" "[]"]
    by (simp add: deque_size_def)
qed

text \<open>
  Claim C10. The non-blocking \<open>pop\<close> does not read the cancellation flag: its count, the
  out-parameter and what it does to the queue are the same whatever the flag is. So on a
  cancelled, non-empty queue it still removes and returns the head with the count before
  the removal, and queued messages can be drained after \<open>cancel\<close>.
\<close>

theorem pop_nonblocking_ignores_cancellation:
  "pop message False wakeups (s\<lparr>m_cancelled := c\<rparr>)
     = map_option (\<lambda>(ret, message', s'). (ret, message', s'\<lparr>m_cancelled := c\<rparr>))
         (pop message False wakeups s)
   \<and> (m_cancelled s \<and> invar s \<and> m_queue s \<noteq> [] \<longrightarrow>
        pop message False wakeups s =
          Some (deque_size (m_queue s), hd (m_queue s), s\<lparr>m_queue := tl (m_queue s)\<rparr>)
        \<and> unat (deque_size (m_queue s)) = length (m_queue s))"
  by (simp add: pop_def pop_nonblocking_def Let_def pop_nonblocking_nonempty unat_deque_size
      front_def pop_front_def)

theorem pop_nonblocking_ignores_cancellation_witness:
  "m_cancelled \<lparr>m_max_capacity = 2, m_cancelled = True, m_queue = [''a'', ''b'']\<rparr>
   \<and> invar \<lparr>m_max_capacity = 2, m_cancelled = True, m_queue = [''a'', ''b'']\<rparr>
   \<and> pop ''x'' False [] \<lparr>m_max_capacity = 2, m_cancelled = True, m_queue = [''a'', ''b'']\<rparr>
       = Some (2, ''a'', \<lparr>m_max_capacity = 2, m_cancelled = True, m_queue = [''b'']\<rparr>)"
proof -
  have i: "invar \<lparr>m_max_capacity = 2, m_cancelled = True, m_queue = [''a'', ''b'']\<rparr>"
    by (simp add: invar_def)
  show ?thesis
    using i pop_nonblocking_ignores_cancellation
      [where message = "''x''" and wakeups = "[]" and c = True
         and s = "\<lparr>m_max_capacity = 2, m_cancelled = True, m_queue = [''a'', ''b'']\<rparr>"]
    by (simp add: deque_size_def)
qed

subsection \<open>Blocking pop\<close>

text \<open>The loop, one round at a time. At \<^verbatim>\<open>wait\<close> the local \<^verbatim>\<open>ret\<close> is 0.\<close>

lemma pop_blocking_loop_Nil:
  "pop_blocking_loop [] ret message s =
     (if m_cancelled s then Some (ret, message, s)
      else if 0 < deque_size (m_queue s)
      then Some (deque_size (m_queue s), hd (m_queue s), s\<lparr>m_queue := tl (m_queue s)\<rparr>)
      else None)"
  by (simp add: pop_blocking_loop.simps [of "[]"] front_def pop_front_def)

lemma pop_blocking_loop_Cons:
  "pop_blocking_loop (others # wakeups) ret message s =
     (if m_cancelled s then Some (ret, message, s)
      else if 0 < deque_size (m_queue s)
      then Some (deque_size (m_queue s), hd (m_queue s), s\<lparr>m_queue := tl (m_queue s)\<rparr>)
      else if m_cancelled (cond_wait others s) then Some (0, message, cond_wait others s)
      else pop_blocking_loop wakeups 0 message (cond_wait others s))"
  by (simp add: pop_blocking_loop.simps [of "others # wakeups"] front_def pop_front_def
      word_gt_0)

lemma pop_blocking_cancelled:
  "m_cancelled s \<Longrightarrow> pop_blocking_loop wakeups ret message s = Some (ret, message, s)"
  by (simp add: pop_blocking_loop.simps)

lemma pop_blocking_nonempty:
  assumes "invar s" and "m_queue s \<noteq> []" and "\<not> m_cancelled s"
  shows "pop_blocking_loop wakeups ret message s =
           Some (deque_size (m_queue s), hd (m_queue s), s\<lparr>m_queue := tl (m_queue s)\<rparr>)"
  using assms pop_nonblocking_nonempty(2) [OF assms(1,2)]
  by (simp add: pop_blocking_loop.simps front_def pop_front_def)

text \<open>A blocking pop returns 0 exactly when it leaves through a cancellation check.\<close>

lemma pop_blocking_loop_zero_iff:
  "pop_blocking_loop wakeups r message s = Some (ret, message', s') \<Longrightarrow> r = 0 \<Longrightarrow>
   (ret = 0 \<longleftrightarrow> m_cancelled s') \<and> (ret = 0 \<longrightarrow> message' = message)"
proof (induction wakeups arbitrary: r s)
  case Nil
  then show ?case
    by (auto simp: pop_blocking_loop_Nil split: if_splits)
next
  case (Cons others wakeups)
  show ?case
  proof (cases "m_cancelled s \<or> 0 < deque_size (m_queue s) \<or> m_cancelled (cond_wait others s)")
    case True
    with Cons.prems show ?thesis
      by (auto simp: pop_blocking_loop_Cons split: if_splits)
  next
    case False
    with Cons.prems(1)
    have "pop_blocking_loop wakeups 0 message (cond_wait others s) = Some (ret, message', s')"
      by (simp add: pop_blocking_loop_Cons)
    then show ?thesis by (rule Cons.IH) simp
  qed
qed

text \<open>
  After a wake-up the caller is where a caller entering \<open>pop\<close> is: a blocking pop with
  wake-ups to come returns what a pop that cannot wait returns, or else goes on from the
  queue as the others left it. And what the others did is an execution of their calls.
\<close>

lemma pop_wakeup:
  "pop message True (others # wakeups) s =
     (case pop message True [] s of
        Some r \<Rightarrow> Some r
      | None \<Rightarrow> pop message True wakeups (cond_wait others s))"
  by (simp add: pop_def pop_blocking_loop_Nil pop_blocking_loop_Cons pop_blocking_cancelled)

lemma act_as_call: "act a s = snd (step (as_call a) s)"
  by (cases a) (simp_all add: pop_def case_prod_beta)

lemma cond_wait_run: "cond_wait others s = snd (run (map as_call others) s)"
  unfolding cond_wait_def
  by (induction others arbitrary: s) (simp_all add: case_prod_beta act_as_call)

text \<open>
  So a blocking pop that returns after some wake-ups is an execution: its rounds that
  found nothing are suspended \<open>Pop\<close> entries, between them stand the calls of the other
  threads, and the last entry is the pop that returned.
\<close>

lemma run_append:
  "run (cs @ ds) s =
     (fst (run cs s) @ fst (run ds (snd (run cs s))), snd (run ds (snd (run cs s))))"
  by (induction cs arbitrary: s) (simp_all add: case_prod_beta)

lemma pop_linearised:
  "pop message True wakeups s = Some (ret, message', s') \<Longrightarrow>
   \<exists>cs h. set cs \<subseteq> insert (Pop message True) (as_call ` (\<Union>others \<in> set wakeups. set others))
      \<and> run (cs @ [Pop message True]) s = (h @ [(Pop message True, Popped ret message')], s')"
proof (induction wakeups arbitrary: s)
  case Nil
  then have "run ([] @ [Pop message True]) s = ([] @ [(Pop message True, Popped ret message')], s')"
    by simp
  then show ?case by (metis empty_set empty_subsetI)
next
  case (Cons others wakeups)
  show ?case
  proof (cases "pop message True [] s")
    case (Some r)
    with Cons.prems have "pop message True [] s = Some (ret, message', s')"
      by (simp add: pop_wakeup)
    then have "run ([] @ [Pop message True]) s
                 = ([] @ [(Pop message True, Popped ret message')], s')"
      by simp
    then show ?thesis by (metis empty_set empty_subsetI)
  next
    case None
    with Cons.prems have "pop message True wakeups (cond_wait others s) = Some (ret, message', s')"
      by (simp add: pop_wakeup)
    from Cons.IH [OF this] obtain cs h
      where cs: "set cs \<subseteq> insert (Pop message True) (as_call ` (\<Union>others \<in> set wakeups. set others))"
        and r: "run (cs @ [Pop message True]) (cond_wait others s)
                  = (h @ [(Pop message True, Popped ret message')], s')"
      by blast
    let ?cs = "Pop message True # map as_call others @ cs"
    let ?h = "(Pop message True, Suspended) # fst (run (map as_call others) s) @ h"
    have "run (?cs @ [Pop message True]) s = (?h @ [(Pop message True, Popped ret message')], s')"
      using None r run_append [of "map as_call others" "cs @ [Pop message True]" s]
      by (simp add: cond_wait_run [symmetric])
    moreover from cs
    have "set ?cs \<subseteq> insert (Pop message True)
            (as_call ` (\<Union>others \<in> set (others # wakeups). set others))"
      by auto
    ultimately show ?thesis by blast
  qed
qed

text \<open>A caller suspended in \<^verbatim>\<open>wait\<close> is released by a cancellation, with failure.\<close>

lemma pop_released_by_cancel:
  "pop message True [] s = None \<Longrightarrow> m_cancelled (cond_wait others s) \<Longrightarrow>
   pop message True (others # wakeups) s = Some (0, message, cond_wait others s)"
  by (simp add: pop_wakeup) (simp add: pop_def pop_blocking_cancelled)

text \<open>
  Claim C2, as stated, fails. The loop tests \<^verbatim>\<open>!m_cancelled\<close> before it looks at the
  queue: on the queue made by \<open>create 2\<close>, \<open>push ''a''\<close>, \<open>cancel\<close>, which holds one
  message, a blocking pop returns 0, hands the out-parameter back untouched and removes
  nothing.
\<close>

theorem pop_blocking_cancelled_first_counterexample:
  "m_queue (cancel (snd (push ''a'' (create 2)))) = [''a'']
   \<and> pop ''x'' True [] (cancel (snd (push ''a'' (create 2))))
       = Some (0, ''x'', cancel (snd (push ''a'' (create 2))))"
  by (simp add: pop_def pop_blocking_loop_Nil cancel_def push_def create_def deque_size_def
      push_back_def)

text \<open>
  Claim C2, amended. In a blocking pop the cancellation check comes before the non-empty
  check: when the flag is set as the call runs, it returns 0, hands the out-parameter back
  untouched and leaves the queue as it is, empty or not, without waiting; when the flag is
  clear and the queue is non-empty, it removes and returns the head with the length before
  the removal, without waiting. And a blocking pop that returns, returns 0 only through a
  cancellation check: the flag is then set, and the out-parameter untouched.
\<close>

theorem pop_blocking_entry:
  "(m_cancelled s \<longrightarrow> pop message True wakeups s = Some (0, message, s))
   \<and> (\<not> m_cancelled s \<and> invar s \<and> m_queue s \<noteq> [] \<longrightarrow>
        pop message True wakeups s =
          Some (deque_size (m_queue s), hd (m_queue s), s\<lparr>m_queue := tl (m_queue s)\<rparr>)
        \<and> unat (deque_size (m_queue s)) = length (m_queue s))
   \<and> (\<forall>ret message' s'. pop message True wakeups s = Some (ret, message', s') \<longrightarrow>
        (ret = 0 \<longleftrightarrow> m_cancelled s') \<and> (ret = 0 \<longrightarrow> message' = message))"
proof -
  have "(ret = 0 \<longleftrightarrow> m_cancelled s') \<and> (ret = 0 \<longrightarrow> message' = message)"
    if "pop message True wakeups s = Some (ret, message', s')" for ret message' s'
    using that pop_blocking_loop_zero_iff [of wakeups 0 message s ret message' s']
    by (simp add: pop_def)
  then show ?thesis
    by (simp add: pop_def pop_blocking_cancelled pop_blocking_nonempty unat_deque_size)
qed

theorem pop_blocking_entry_witness:
  "pop ''x'' True [] \<lparr>m_max_capacity = 2, m_cancelled = True, m_queue = [''a'', ''b'']\<rparr>
     = Some (0, ''x'', \<lparr>m_max_capacity = 2, m_cancelled = True, m_queue = [''a'', ''b'']\<rparr>)
   \<and> invar \<lparr>m_max_capacity = 2, m_cancelled = False, m_queue = [''a'', ''b'']\<rparr>
   \<and> pop ''x'' True [] \<lparr>m_max_capacity = 2, m_cancelled = False, m_queue = [''a'', ''b'']\<rparr>
     = Some (2, ''a'', \<lparr>m_max_capacity = 2, m_cancelled = False, m_queue = [''b'']\<rparr>)"
proof -
  have i: "invar \<lparr>m_max_capacity = 2, m_cancelled = False, m_queue = [''a'', ''b'']\<rparr>"
    by (simp add: invar_def)
  show ?thesis
    using i
      pop_blocking_entry [of "\<lparr>m_max_capacity = 2, m_cancelled = True, m_queue = [''a'', ''b'']\<rparr>" "''x''" "[]"]
      pop_blocking_entry [of "\<lparr>m_max_capacity = 2, m_cancelled = False, m_queue = [''a'', ''b'']\<rparr>" "''x''" "[]"]
    by (simp add: deque_size_def)
qed

subsection \<open>The capacity invariant is kept\<close>

lemma invar_create: "invar (create max_capacity)"
  by (simp add: invar_def create_def)

lemma invar_push: "invar s \<Longrightarrow> invar (snd (push message s))"
proof (cases "length (m_queue s) = unat (m_max_capacity s)")
  case True
  assume "invar s"
  with True show ?thesis by (simp add: push_full)
next
  case False
  assume "invar s"
  with False show ?thesis
    using push_below(1) [of s message] by (auto simp: invar_def)
qed

lemma invar_pop_nonblocking: "invar s \<Longrightarrow> invar (snd (snd (pop_nonblocking message s)))"
  by (auto simp: pop_nonblocking_def invar_def Let_def pop_front_def)

lemma invar_cancel: "invar s \<Longrightarrow> invar (cancel s)"
  by (simp add: invar_def cancel_def)

lemma invar_act: "invar s \<Longrightarrow> invar (act a s)"
  by (cases a) (simp_all add: invar_push invar_pop_nonblocking invar_cancel)

lemma invar_cond_wait: "invar s \<Longrightarrow> invar (cond_wait others s)"
  unfolding cond_wait_def by (induction others arbitrary: s) (simp_all add: invar_act)

lemma invar_tl: "invar s \<Longrightarrow> invar (s\<lparr>m_queue := tl (m_queue s)\<rparr>)"
  by (simp add: invar_def)

lemma invar_pop_blocking_loop:
  "pop_blocking_loop wakeups r message s = Some (ret, message', s') \<Longrightarrow> invar s \<Longrightarrow> invar s'"
proof (induction wakeups arbitrary: r s)
  case Nil
  then show ?case
    by (auto simp: pop_blocking_loop_Nil invar_tl split: if_splits)
next
  case (Cons others wakeups)
  from Cons.prems(2) have w: "invar (cond_wait others s)" by (rule invar_cond_wait)
  from Cons.prems w show ?case
    by (auto simp: pop_blocking_loop_Cons invar_tl split: if_splits dest: Cons.IH)
qed

lemma invar_pop:
  "pop message blocking wakeups s = Some (ret, message', s') \<Longrightarrow> invar s \<Longrightarrow> invar s'"
  using invar_pop_nonblocking [of s message]
  by (auto simp: pop_def split: if_splits dest: invar_pop_blocking_loop)

lemma invar_step: "invar s \<Longrightarrow> invar (snd (step c s))"
  by (cases c) (auto simp: invar_push invar_cancel split: option.splits dest: invar_pop)

lemma invar_run: "invar s \<Longrightarrow> invar (snd (run cs s))"
  by (induction cs arbitrary: s) (auto simp: case_prod_beta Let_def invar_step)

text \<open>No method writes \<^verbatim>\<open>m_max_capacity\<close>.\<close>

lemma capacity_push: "m_max_capacity (snd (push message s)) = m_max_capacity s"
  by (simp add: push_def Let_def)

lemma capacity_pop_nonblocking:
  "m_max_capacity (snd (snd (pop_nonblocking message s))) = m_max_capacity s"
  by (simp add: pop_nonblocking_def Let_def)

lemma capacity_act: "m_max_capacity (act a s) = m_max_capacity s"
  by (cases a) (simp_all add: capacity_push capacity_pop_nonblocking cancel_def)

lemma capacity_cond_wait: "m_max_capacity (cond_wait others s) = m_max_capacity s"
  unfolding cond_wait_def by (induction others arbitrary: s) (simp_all add: capacity_act)

lemma capacity_pop_blocking_loop:
  "pop_blocking_loop wakeups r message s = Some (ret, message', s') \<Longrightarrow>
   m_max_capacity s' = m_max_capacity s"
proof (induction wakeups arbitrary: r s)
  case Nil
  then show ?case
    by (auto simp: pop_blocking_loop_Nil split: if_splits)
next
  case (Cons others wakeups)
  then show ?case
    by (auto simp: pop_blocking_loop_Cons capacity_cond_wait split: if_splits dest!: Cons.IH)
qed

lemma capacity_pop:
  "pop message blocking wakeups s = Some (ret, message', s') \<Longrightarrow>
   m_max_capacity s' = m_max_capacity s"
  using capacity_pop_nonblocking [of message s]
  by (auto simp: pop_def split: if_splits dest: capacity_pop_blocking_loop)

lemma capacity_step: "m_max_capacity (snd (step c s)) = m_max_capacity s"
  by (cases c) (auto simp: capacity_push cancel_def split: option.splits dest: capacity_pop)

lemma capacity_run: "m_max_capacity (snd (run cs s)) = m_max_capacity s"
  by (induction cs arbitrary: s) (auto simp: case_prod_beta Let_def capacity_step)

text \<open>
  Claim C7. The stored count is between 0 and \<open>m_max_capacity\<close> in a queue just
  created, and every operation keeps it so: \<open>push\<close> (which never takes the queue past
  its capacity), \<open>pop\<close> in both modes and whatever the other threads do while it waits,
  \<open>cancel\<close>, and \<open>size\<close> and \<open>is_cancelled\<close>, which change nothing. So it holds after
  every execution of a created queue.
\<close>

theorem capacity_invariant:
  "invar (create max_capacity)
   \<and> (invar s \<longrightarrow>
        invar (snd (push message s))
        \<and> length (m_queue (snd (push message s))) \<le> unat (m_max_capacity s)
        \<and> invar (snd (snd (pop_nonblocking message s)))
        \<and> (\<forall>ret message' s'.
              pop message blocking wakeups s = Some (ret, message', s') \<longrightarrow> invar s')
        \<and> invar (cancel s)
        \<and> snd (step Size s) = s \<and> snd (step Is_cancelled s) = s
        \<and> invar (snd (step c s))
        \<and> invar (snd (run cs s)))
   \<and> length (m_queue (snd (run cs (create max_capacity)))) \<le> unat max_capacity"
proof -
  have "length (m_queue (snd (push message s))) \<le> unat (m_max_capacity s)" if "invar s"
    using invar_push [OF that, of message] by (simp add: invar_def capacity_push)
  moreover have "invar s'"
    if "invar s" and "pop message blocking wakeups s = Some (ret, message', s')"
    for ret message' s'
    using that(2,1) by (rule invar_pop)
  moreover have "length (m_queue (snd (run cs (create max_capacity)))) \<le> unat max_capacity"
    using invar_run [OF invar_create, of cs max_capacity]
    by (simp add: invar_def capacity_run) (simp add: create_def)
  ultimately show ?thesis
    by (simp add: invar_create invar_push invar_pop_nonblocking invar_cancel invar_step
        invar_run)
qed

theorem capacity_invariant_witness:
  "invar \<lparr>m_max_capacity = 2, m_cancelled = False, m_queue = [''a'', ''b'']\<rparr>
   \<and> snd (push ''c'' \<lparr>m_max_capacity = 2, m_cancelled = False, m_queue = [''a'', ''b'']\<rparr>)
       = \<lparr>m_max_capacity = 2, m_cancelled = False, m_queue = [''a'', ''b'']\<rparr>
   \<and> pop ''x'' True [] \<lparr>m_max_capacity = 2, m_cancelled = False, m_queue = [''a'', ''b'']\<rparr>
       = Some (2, ''a'', \<lparr>m_max_capacity = 2, m_cancelled = False, m_queue = [''b'']\<rparr>)
   \<and> invar \<lparr>m_max_capacity = 2, m_cancelled = False, m_queue = [''b'']\<rparr>"
proof -
  have i: "invar \<lparr>m_max_capacity = 2, m_cancelled = False, m_queue = [''a'', ''b'']\<rparr>"
    by (simp add: invar_def)
  have p: "pop ''x'' True [] \<lparr>m_max_capacity = 2, m_cancelled = False, m_queue = [''a'', ''b'']\<rparr>
       = Some (2, ''a'', \<lparr>m_max_capacity = 2, m_cancelled = False, m_queue = [''b'']\<rparr>)"
    by (simp add: pop_def pop_blocking_loop_Nil deque_size_def)
  have q: "snd (push ''c'' \<lparr>m_max_capacity = 2, m_cancelled = False, m_queue = [''a'', ''b'']\<rparr>)
       = \<lparr>m_max_capacity = 2, m_cancelled = False, m_queue = [''a'', ''b'']\<rparr>"
    by (simp add: push_def deque_size_def)
  show ?thesis
    using i p q capacity_invariant
      [of 2 "\<lparr>m_max_capacity = 2, m_cancelled = False, m_queue = [''a'', ''b'']\<rparr>"
          "''x''" True "[]" Size "[]"]
    by blast
qed

subsection \<open>Cancellation is permanent\<close>

text \<open>Only \<open>cancel\<close> writes \<^verbatim>\<open>m_cancelled\<close>, and it writes \<^verbatim>\<open>true\<close>.\<close>

lemma cancelled_push: "m_cancelled (snd (push message s)) = m_cancelled s"
  by (simp add: push_def Let_def)

lemma cancelled_pop_nonblocking:
  "m_cancelled (snd (snd (pop_nonblocking message s))) = m_cancelled s"
  by (simp add: pop_nonblocking_def Let_def)

lemma cancelled_step: "m_cancelled s \<Longrightarrow> m_cancelled (snd (step c s))"
proof (cases c)
  case (Pop message blocking)
  assume "m_cancelled s"
  then show ?thesis
    using cancelled_pop_nonblocking [of message s]
    by (cases blocking) (simp_all add: Pop pop_def pop_blocking_cancelled case_prod_beta)
qed (simp_all add: cancelled_push cancel_def)

lemma cancelled_run: "m_cancelled s \<Longrightarrow> m_cancelled (snd (run cs s))"
  by (induction cs arbitrary: s) (auto simp: case_prod_beta Let_def cancelled_step)

lemma not_suspended_step: "m_cancelled s \<Longrightarrow> fst (step c s) \<noteq> Suspended"
proof (cases c)
  case (Pop message blocking)
  assume "m_cancelled s"
  then show ?thesis
    by (cases blocking) (simp_all add: Pop pop_def pop_blocking_cancelled case_prod_beta)
qed simp_all

lemma not_suspended_run:
  "m_cancelled s \<Longrightarrow> (c, a) \<in> set (fst (run cs s)) \<Longrightarrow> a \<noteq> Suspended"
proof (induction cs arbitrary: s)
  case Nil
  then show ?case by simp
next
  case (Cons c' cs)
  from Cons.prems(1) have c'': "m_cancelled (snd (step c' s))" by (rule cancelled_step)
  from Cons.prems(2) consider "a = fst (step c' s)"
    | "(c, a) \<in> set (fst (run cs (snd (step c' s))))"
    by (auto simp: case_prod_beta Let_def)
  then show ?case
  proof cases
    case 1
    with Cons.prems(1) show ?thesis by (simp add: not_suspended_step)
  next
    case 2
    with c'' show ?thesis by (rule Cons.IH)
  qed
qed

lemma blocking_pop_answers_step:
  "m_cancelled s \<Longrightarrow> step (Pop message True) s = (Popped 0 message, s)"
  by (simp add: pop_def pop_blocking_cancelled)

text \<open>
  Every blocking pop recorded in an execution from a cancelled state answered 0, with its
  out-parameter untouched.
\<close>

lemma blocking_pops_fail_run:
  "m_cancelled s \<Longrightarrow> (Pop message True, a) \<in> set (fst (run cs s)) \<Longrightarrow> a = Popped 0 message"
proof (induction cs arbitrary: s)
  case Nil
  then show ?case by simp
next
  case (Cons c cs)
  from Cons.prems(1) have c': "m_cancelled (snd (step c s))" by (rule cancelled_step)
  from Cons.prems(2) consider "(Pop message True, a) = (c, fst (step c s))"
    | "(Pop message True, a) \<in> set (fst (run cs (snd (step c s))))"
    by (auto simp: case_prod_beta Let_def)
  then show ?case
  proof cases
    case 1
    with Cons.prems(1) show ?thesis
      using blocking_pop_answers_step [of s message] by auto
  next
    case 2
    with c' show ?thesis by (rule Cons.IH)
  qed
qed

text \<open>
  Claim C4. Once \<open>cancel\<close> has run, the queue stays cancelled: after any further calls
  \<open>is_cancelled\<close> is true, a blocking pop returns 0 with its out-parameter untouched
  without waiting (whatever wake-ups there would be, none is used), and no call among
  those further calls was suspended: each blocking pop among them answered 0.
\<close>

theorem cancel_is_permanent:
  "is_cancelled (snd (run cs (cancel s)))
   \<and> pop message True wakeups (snd (run cs (cancel s)))
       = Some (0, message, snd (run cs (cancel s)))
   \<and> (\<forall>c a. (c, a) \<in> set (fst (run cs (cancel s))) \<longrightarrow>
         a \<noteq> Suspended \<and> (\<forall>m. c = Pop m True \<longrightarrow> a = Popped 0 m))"
proof -
  have c: "m_cancelled (cancel s)" by (simp add: cancel_def)
  then have after: "m_cancelled (snd (run cs (cancel s)))" by (rule cancelled_run)
  then have "pop message True wakeups (snd (run cs (cancel s)))
       = Some (0, message, snd (run cs (cancel s)))"
    by (simp add: pop_def pop_blocking_cancelled)
  moreover have "a \<noteq> Suspended" if "(c, a) \<in> set (fst (run cs (cancel s)))" for c a
    using c that by (rule not_suspended_run)
  moreover have "a = Popped 0 m" if "(Pop m True, a) \<in> set (fst (run cs (cancel s)))" for m a
    using c that by (rule blocking_pops_fail_run)
  ultimately show ?thesis using after by (auto simp: is_cancelled_def)
qed

theorem cancel_is_permanent_witness:
  "run [Push ''a'', Pop ''x'' True, Is_cancelled] (cancel (create 2))
     = ([(Push ''a'', Pushed 1), (Pop ''x'' True, Popped 0 ''x''), (Is_cancelled, Flag True)],
        \<lparr>m_max_capacity = 2, m_cancelled = True, m_queue = [''a'']\<rparr>)
   \<and> pop ''y'' True [] \<lparr>m_max_capacity = 2, m_cancelled = True, m_queue = [''a'']\<rparr>
       = Some (0, ''y'', \<lparr>m_max_capacity = 2, m_cancelled = True, m_queue = [''a'']\<rparr>)"
proof -
  have r: "run [Push ''a'', Pop ''x'' True, Is_cancelled] (cancel (create 2))
     = ([(Push ''a'', Pushed 1), (Pop ''x'' True, Popped 0 ''x''), (Is_cancelled, Flag True)],
        \<lparr>m_max_capacity = 2, m_cancelled = True, m_queue = [''a'']\<rparr>)"
    by (simp add: cancel_def create_def push_def pop_def pop_blocking_loop_Nil deque_size_def
        push_back_def is_cancelled_def)
  show ?thesis
    using r cancel_is_permanent
      [of "[Push ''a'', Pop ''x'' True, Is_cancelled]" "create 2" "''y''" "[]"]
    by simp
qed

subsection \<open>FIFO order\<close>

lemma fifo_push:
  "m_queue (snd (push message s))
     = m_queue s @ (if fst (push message s) = 0 then [] else [message])"
proof (cases "deque_size (m_queue s) < m_max_capacity s")
  case True
  then have "unat (deque_size (m_queue s) + 1) = unat (deque_size (m_queue s)) + 1"
    by (rule unat_succ_below)
  then have "deque_size (m_queue s) + 1 \<noteq> 0"
    by (auto simp: unat_eq_0)
  with True show ?thesis by (simp add: push_def push_back_def)
next
  case False
  then show ?thesis by (simp add: push_def)
qed

lemma fifo_pop_nonblocking:
  "m_queue s
     = (if fst (pop_nonblocking message s) = 0 then [] else [fst (snd (pop_nonblocking message s))])
       @ m_queue (snd (snd (pop_nonblocking message s)))"
proof (cases "0 < deque_size (m_queue s)")
  case True
  then have "m_queue s \<noteq> []" by (rule deque_size_pos_nonempty)
  moreover from True have "deque_size (m_queue s) \<noteq> 0" by simp
  ultimately show ?thesis
    using True by (simp add: pop_nonblocking_def front_def pop_front_def)
next
  case False
  then show ?thesis by (simp add: pop_nonblocking_def word_gt_0)
qed

lemma fifo_pop:
  assumes "pop message blocking [] s = Some (ret, message', s')"
  shows "m_queue s = (if ret = 0 then [] else [message']) @ m_queue s'"
proof (cases blocking)
  case True
  with assms show ?thesis
    by (auto simp: pop_def pop_blocking_loop_Nil split: if_splits
        dest: deque_size_pos_nonempty)
next
  case False
  with assms show ?thesis
    using fifo_pop_nonblocking [of s message] by (auto simp: pop_def)
qed

lemma fifo_run:
  "pops (fst (run cs s)) @ m_queue (snd (run cs s)) = m_queue s @ pushes (fst (run cs s))"
proof (induction cs arbitrary: s)
  case Nil
  show ?case by simp
next
  case (Cons c cs)
  show ?case
  proof (cases c)
    case (Push message)
    then show ?thesis
      using Cons.IH [of "snd (push message s)"] fifo_push [of message s]
      by (simp add: case_prod_beta)
  next
    case (Pop message blocking)
    show ?thesis
    proof (cases "pop message blocking [] s")
      case None
      with Pop show ?thesis using Cons.IH [of s] by (simp add: case_prod_beta)
    next
      case (Some r)
      obtain ret message' s' where r: "r = (ret, message', s')" by (cases r)
      with Some Pop show ?thesis
        using Cons.IH [of s'] fifo_pop [of message blocking s ret message' s']
        by (simp add: case_prod_beta)
    qed
  next
    case Cancel
    then show ?thesis
      using Cons.IH [of "cancel s"] by (simp add: case_prod_beta cancel_def)
  next
    case Is_cancelled
    then show ?thesis using Cons.IH [of s] by (simp add: case_prod_beta)
  next
    case Size
    then show ?thesis using Cons.IH [of s] by (simp add: case_prod_beta)
  qed
qed

text \<open>
  A blocking pop that returns after some wake-ups returns what a pop that cannot wait
  returns from the queue as the others left it at its last wake-up.
\<close>

lemma cond_wait_append:
  "cond_wait (others @ others') s = cond_wait others' (cond_wait others s)"
  by (simp add: cond_wait_def)

lemma pop_after_waited:
  "pop message True wakeups s = Some r \<Longrightarrow>
   pop message True [] (cond_wait (waited wakeups s) s) = Some r"
proof (induction wakeups arbitrary: s)
  case Nil
  then show ?case by (simp add: cond_wait_def)
next
  case (Cons others wakeups)
  show ?case
  proof (cases "\<not> m_cancelled s \<and> \<not> 0 < deque_size (m_queue s)")
    case True
    then have "pop message True [] s = None"
      by (simp add: pop_def pop_blocking_loop_Nil)
    with Cons.prems have "pop message True wakeups (cond_wait others s) = Some r"
      by (simp add: pop_wakeup)
    then have "pop message True [] (cond_wait (waited wakeups (cond_wait others s))
                 (cond_wait others s)) = Some r"
      by (rule Cons.IH)
    with True show ?thesis by (simp add: cond_wait_append)
  next
    case False
    then have "pop message True [] s \<noteq> None"
      by (auto simp: pop_def pop_blocking_loop_Nil)
    with Cons.prems have "pop message True [] s = Some r"
      by (auto simp: pop_wakeup)
    with False show ?thesis by (auto simp: cond_wait_def)
  qed
qed

lemma fifo_pop_blocking:
  assumes "pop message True wakeups s = Some (ret, message', s')"
  shows "pops (fst (run (map as_call (waited wakeups s)) s))
           @ (if ret = 0 then [] else [message']) @ m_queue s'
         = m_queue s @ pushes (fst (run (map as_call (waited wakeups s)) s))"
proof -
  let ?others = "map as_call (waited wakeups s)"
  from assms have "pop message True [] (snd (run ?others s)) = Some (ret, message', s')"
    using pop_after_waited [of message wakeups s] by (simp add: cond_wait_run)
  then have "m_queue (snd (run ?others s)) = (if ret = 0 then [] else [message']) @ m_queue s'"
    by (rule fifo_pop)
  with fifo_run [of ?others s] show ?thesis by simp
qed

text \<open>
  Claim C5. In every execution, from any queue, the messages the successful pops returned,
  followed by what the queue holds at the end, are what the queue held at the start
  followed by the messages of the successful pushes, each in order: a push appends at the
  tail and a pop removes the head. From a created queue, which is empty, the popped
  messages are an initial segment of the pushed ones, in the same order. The same holds
  of a blocking pop that waits, whatever the other threads do at its wake-ups: what the
  others popped meanwhile, then the message it returns, then what the queue holds at its
  return, are what the queue held at the call followed by what the others pushed
  meanwhile, each in order.
\<close>

theorem fifo_order:
  "pops (fst (run cs s)) @ m_queue (snd (run cs s)) = m_queue s @ pushes (fst (run cs s))
   \<and> prefix (pops (fst (run cs (create max_capacity))))
        (pushes (fst (run cs (create max_capacity))))
   \<and> (\<forall>ret message' s'.
        pop message True wakeups s = Some (ret, message', s') \<longrightarrow>
        pops (fst (run (map as_call (waited wakeups s)) s))
          @ (if ret = 0 then [] else [message']) @ m_queue s'
        = m_queue s @ pushes (fst (run (map as_call (waited wakeups s)) s)))"
proof -
  have "pops (fst (run cs (create max_capacity)))
          @ m_queue (snd (run cs (create max_capacity :: 'a MessageQueuePosix)))
        = pushes (fst (run cs (create max_capacity)))"
    using fifo_run [of cs "create max_capacity"] by (simp add: create_def)
  then have "prefix (pops (fst (run cs (create max_capacity))))
        (pushes (fst (run cs (create max_capacity))))"
    by (metis prefixI)
  moreover have "pops (fst (run (map as_call (waited wakeups s)) s))
          @ (if ret = 0 then [] else [message']) @ m_queue s'
        = m_queue s @ pushes (fst (run (map as_call (waited wakeups s)) s))"
    if "pop message True wakeups s = Some (ret, message', s')" for ret message' s'
    using that by (rule fifo_pop_blocking)
  ultimately show ?thesis using fifo_run [of cs s] by blast
qed

theorem fifo_order_witness:
  "pushes (fst (run [Push ''a'', Push ''b'', Push ''c'', Pop ''x'' False, Pop ''x'' True,
                     Pop ''x'' False] (create 2))) = [''a'', ''b'']
   \<and> pops (fst (run [Push ''a'', Push ''b'', Push ''c'', Pop ''x'' False, Pop ''x'' True,
                     Pop ''x'' False] (create 2))) = [''a'', ''b'']
   \<and> prefix [''a'', ''b''] [''a'', ''b'']
   \<and> pop ''x'' True [[Other_push ''a'', Other_push ''b'']] (create 2)
       = Some (2, ''a'', \<lparr>m_max_capacity = 2, m_cancelled = False, m_queue = [''b'']\<rparr>)
   \<and> waited [[Other_push ''a'', Other_push ''b'']] (create 2 :: string MessageQueuePosix)
       = [Other_push ''a'', Other_push ''b'']
   \<and> pushes (fst (run [Push ''a'', Push ''b''] (create 2))) = [''a''] @ [''b'']"
proof -
  have r: "run [Push ''a'', Push ''b'', Push ''c'', Pop ''x'' False, Pop ''x'' True,
                Pop ''x'' False] (create 2)
     = ([(Push ''a'', Pushed 1), (Push ''b'', Pushed 2), (Push ''c'', Pushed 0),
         (Pop ''x'' False, Popped 2 ''a''), (Pop ''x'' True, Popped 1 ''b''),
         (Pop ''x'' False, Popped 0 ''x'')],
        \<lparr>m_max_capacity = 2, m_cancelled = False, m_queue = []\<rparr>)"
    by (simp add: create_def push_def pop_def pop_nonblocking_def pop_blocking_loop_Nil
        deque_size_def push_back_def front_def pop_front_def)
  have p: "pop ''x'' True [[Other_push ''a'', Other_push ''b'']] (create 2)
       = Some (2, ''a'', \<lparr>m_max_capacity = 2, m_cancelled = False, m_queue = [''b'']\<rparr>)"
    by (simp add: create_def push_def pop_def pop_blocking_loop_Nil pop_blocking_loop_Cons
        cond_wait_def deque_size_def push_back_def)
  have w: "waited [[Other_push ''a'', Other_push ''b'']] (create 2 :: string MessageQueuePosix)
       = [Other_push ''a'', Other_push ''b'']"
    by (simp add: create_def deque_size_def)
  have q: "m_queue (create 2 :: string MessageQueuePosix) = []"
    by (simp add: create_def)
  show ?thesis
    using fifo_order
      [where cs = "[Push ''a'', Push ''b'', Push ''c'', Pop ''x'' False, Pop ''x'' True,
                    Pop ''x'' False]"
         and s = "create 2" and max_capacity = 2 and message = "''x''"
         and wakeups = "[[Other_push ''a'', Other_push ''b'']]"]
    unfolding r p w by (simp add: q)
qed

section \<open>Properties of the typed wrapper\<close>

subsection \<open>Round trip\<close>

lemma pop_singleton:
  assumes "m_queue s = [h]" and "\<not> m_cancelled s \<or> \<not> blocking"
  shows "pop message blocking wakeups s = Some (1, h, s\<lparr>m_queue := []\<rparr>)"
proof (cases blocking)
  case True
  with assms(2) have "\<not> m_cancelled s" by simp
  with True assms(1) show ?thesis
    by (cases wakeups)
      (simp_all add: pop_def pop_blocking_loop_Nil pop_blocking_loop_Cons deque_size_def)
next
  case False
  with assms(1) show ?thesis
    by (simp add: pop_def pop_nonblocking_def deque_size_def front_def pop_front_def)
qed

text \<open>
  Claim C6, as stated, fails. On a typed queue that is empty and below capacity but
  cancelled, \<open>push\<close> of 5 succeeds (it returns 1) and the blocking \<open>pop\<close> that follows
  fails: it returns 0 and leaves the destination, 0 here, untouched.
\<close>

theorem typed_round_trip_counterexample:
  "m_queue (MessageQueueT_cancel (MessageQueueT 1 :: nat Message MessageQueuePosix)) = []
   \<and> size_mq (MessageQueueT_cancel (MessageQueueT 1 :: nat Message MessageQueuePosix))
       < m_max_capacity (MessageQueueT_cancel (MessageQueueT 1 :: nat Message MessageQueuePosix))
   \<and> MessageQueueT_push (5::nat) (MessageQueueT_cancel (MessageQueueT 1))
       = (1, \<lparr>m_max_capacity = 1, m_cancelled = True, m_queue = [Some (MessageImpl 5)]\<rparr>)
   \<and> MessageQueueT_pop (0::nat) True []
        (snd (MessageQueueT_push 5 (MessageQueueT_cancel (MessageQueueT 1))))
       = Some (Inr (0, 0, \<lparr>m_max_capacity = 1, m_cancelled = True, m_queue = [Some (MessageImpl 5)]\<rparr>))"
  by (simp add: MessageQueueT_cancel_def MessageQueueT_def MessageQueueT_push_def
      MessageQueueT_pop_def create_def cancel_def push_def pop_def size_mq_def
      pop_blocking_loop_Nil deque_size_def push_back_def)

text \<open>
  Claim C6, amended. On a typed queue that is empty and below capacity, and that is not
  cancelled or is popped with \<open>blocking = false\<close>, \<open>push\<close> of a value \<open>v\<close> succeeds
  and the one \<open>pop\<close> that follows succeeds, without waiting, and yields \<open>v\<close>; the queue
  is then as it was.
\<close>

theorem typed_round_trip:
  assumes "m_queue m_impl = []" and "0 < m_max_capacity m_impl"
    and "\<not> m_cancelled m_impl \<or> \<not> blocking"
  shows "MessageQueueT_push v m_impl = (1, m_impl\<lparr>m_queue := [Some (MessageImpl v)]\<rparr>)
     \<and> MessageQueueT_pop dst_message blocking wakeups (snd (MessageQueueT_push v m_impl))
         = Some (Inr (1, v, m_impl))"
proof -
  from assms(1,2)
  have p: "MessageQueueT_push v m_impl = (1, m_impl\<lparr>m_queue := [Some (MessageImpl v)]\<rparr>)"
    by (simp add: MessageQueueT_push_def push_def deque_size_def push_back_def)
  have "pop None blocking (map (map boxed) wakeups) (m_impl\<lparr>m_queue := [Some (MessageImpl v)]\<rparr>)
          = Some (1, Some (MessageImpl v), m_impl\<lparr>m_queue := [Some (MessageImpl v)]\<rparr>\<lparr>m_queue := []\<rparr>)"
    using assms(3) by (intro pop_singleton) simp_all
  moreover have "m_impl\<lparr>m_queue := [Some (MessageImpl v)]\<rparr>\<lparr>m_queue := []\<rparr> = m_impl"
    using assms(1) by simp
  ultimately show ?thesis
    using p by (simp add: MessageQueueT_pop_def)
qed

theorem typed_round_trip_witness:
  "MessageQueueT_pop (0::nat) True [] (snd (MessageQueueT_push 5 (MessageQueueT 1)))
     = Some (Inr (1, 5, MessageQueueT 1))
   \<and> MessageQueueT_pop (0::nat) False []
        (snd (MessageQueueT_push 5 (MessageQueueT_cancel (MessageQueueT 1))))
     = Some (Inr (1, 5, MessageQueueT_cancel (MessageQueueT 1)))"
proof -
  have a: "m_queue (MessageQueueT 1 :: nat Message MessageQueuePosix) = []"
    and b: "0 < m_max_capacity (MessageQueueT 1 :: nat Message MessageQueuePosix)"
    and c: "\<not> m_cancelled (MessageQueueT 1 :: nat Message MessageQueuePosix) \<or> \<not> True"
    by (simp_all add: MessageQueueT_def create_def)
  have a': "m_queue (MessageQueueT_cancel (MessageQueueT 1 :: nat Message MessageQueuePosix)) = []"
    and b': "0 < m_max_capacity (MessageQueueT_cancel (MessageQueueT 1 :: nat Message MessageQueuePosix))"
    and c': "\<not> m_cancelled (MessageQueueT_cancel (MessageQueueT 1 :: nat Message MessageQueuePosix)) \<or> \<not> False"
    by (simp_all add: MessageQueueT_def MessageQueueT_cancel_def cancel_def create_def)
  show ?thesis
    using typed_round_trip [OF a b c, of 5 0 "[]"] typed_round_trip [OF a' b' c', of 5 0 "[]"]
    by blast
qed

subsection \<open>Type recovery\<close>

lemma is_MessageImpl_iff: "is_MessageImpl h \<longleftrightarrow> (\<exists>payload. h = Some (MessageImpl payload))"
  by (cases h rule: is_MessageImpl.cases) simp_all

lemma all_boxed_create: "all_boxed (MessageQueueT max_capacity)"
  by (simp add: all_boxed_def MessageQueueT_def create_def)

lemma all_boxed_push: "all_boxed s \<Longrightarrow> is_MessageImpl h \<Longrightarrow> all_boxed (snd (push h s))"
  by (simp add: all_boxed_def push_def Let_def push_back_def)

lemma all_boxed_tl: "all_boxed s \<Longrightarrow> all_boxed (s\<lparr>m_queue := tl (m_queue s)\<rparr>)"
  by (cases "m_queue s") (simp_all add: all_boxed_def)

lemma all_boxed_hd: "all_boxed s \<Longrightarrow> m_queue s \<noteq> [] \<Longrightarrow> is_MessageImpl (hd (m_queue s))"
  by (cases "m_queue s") (simp_all add: all_boxed_def)

lemma all_boxed_pop_nonblocking: "all_boxed s \<Longrightarrow> all_boxed (snd (snd (pop_nonblocking h s)))"
  by (simp add: pop_nonblocking_def Let_def pop_front_def all_boxed_tl)

lemma all_boxed_cancel: "all_boxed s \<Longrightarrow> all_boxed (cancel s)"
  by (simp add: all_boxed_def cancel_def)

lemma all_boxed_act: "all_boxed s \<Longrightarrow> all_boxed (act (boxed a) s)"
  by (cases a) (simp_all add: all_boxed_push all_boxed_pop_nonblocking all_boxed_cancel)

lemma all_boxed_cond_wait: "all_boxed s \<Longrightarrow> all_boxed (cond_wait (map boxed others) s)"
  unfolding cond_wait_def by (induction others arbitrary: s) (simp_all add: all_boxed_act)

lemma popped_pop_nonblocking:
  "all_boxed s \<Longrightarrow> 0 < fst (pop_nonblocking h s) \<Longrightarrow>
   is_MessageImpl (fst (snd (pop_nonblocking h s)))"
  by (auto simp: pop_nonblocking_def Let_def front_def split: if_splits
      dest: deque_size_pos_nonempty all_boxed_hd)

lemma all_boxed_pop_blocking_loop:
  "pop_blocking_loop (map (map boxed) wakeups) r h s = Some (ret, h', s') \<Longrightarrow> all_boxed s \<Longrightarrow>
   r = 0 \<Longrightarrow> all_boxed s' \<and> (0 < ret \<longrightarrow> is_MessageImpl h')"
proof (induction wakeups arbitrary: r s)
  case Nil
  then show ?case
    by (auto simp: pop_blocking_loop_Nil all_boxed_tl split: if_splits
        dest: deque_size_pos_nonempty all_boxed_hd)
next
  case (Cons others wakeups)
  from Cons.prems(2) have w: "all_boxed (cond_wait (map boxed others) s)"
    by (rule all_boxed_cond_wait)
  show ?case
  proof (cases "m_cancelled s \<or> 0 < deque_size (m_queue s) \<or> m_cancelled (cond_wait (map boxed others) s)")
    case True
    with Cons.prems w show ?thesis
      by (auto simp: pop_blocking_loop_Cons all_boxed_tl split: if_splits
          dest: deque_size_pos_nonempty all_boxed_hd)
  next
    case False
    with Cons.prems(1)
    have "pop_blocking_loop (map (map boxed) wakeups) 0 h (cond_wait (map boxed others) s)
            = Some (ret, h', s')"
      by (simp add: pop_blocking_loop_Cons)
    from Cons.IH [OF this w] show ?thesis by simp
  qed
qed

lemma all_boxed_pop:
  assumes "pop h blocking (map (map boxed) wakeups) s = Some (ret, h', s')" and "all_boxed s"
  shows "all_boxed s' \<and> (0 < ret \<longrightarrow> is_MessageImpl h')"
proof (cases blocking)
  case True
  with assms show ?thesis
    using all_boxed_pop_blocking_loop [of wakeups 0 h s ret h' s'] by (simp add: pop_def)
next
  case False
  with assms show ?thesis
    using all_boxed_pop_nonblocking [of s h] popped_pop_nonblocking [of s h]
    by (auto simp: pop_def)
qed

lemma MessageQueueT_pop_no_assertion:
  assumes "all_boxed m_impl"
  shows "MessageQueueT_pop dst_message blocking wakeups m_impl \<noteq> Some (Inl a)"
proof (cases "pop None blocking (map (map boxed) wakeups) m_impl")
  case None
  then show ?thesis by (simp add: MessageQueueT_pop_def)
next
  case (Some r)
  obtain ret h s' where r: "r = (ret, h, s')" by (cases r)
  from all_boxed_pop [OF Some [unfolded r] assms]
  have "0 < ret \<longrightarrow> is_MessageImpl h" by simp
  then show ?thesis
    using Some r by (auto simp: MessageQueueT_pop_def Let_def is_MessageImpl_iff)
qed

lemma MessageQueueT_pop_all_boxed:
  assumes "all_boxed m_impl"
    and "MessageQueueT_pop dst_message blocking wakeups m_impl = Some (Inr (ret, dst', m_impl'))"
  shows "all_boxed m_impl'"
proof (cases "pop None blocking (map (map boxed) wakeups) m_impl")
  case None
  with assms(2) show ?thesis by (simp add: MessageQueueT_pop_def)
next
  case (Some r)
  obtain ret0 h s' where r: "r = (ret0, h, s')" by (cases r)
  from all_boxed_pop [OF Some [unfolded r] assms(1)] have "all_boxed s'" by simp
  with assms(2) Some r show ?thesis
    by (auto simp: MessageQueueT_pop_def Let_def split: if_splits)
qed

lemma stepT_all_boxed:
  assumes "all_boxed m_impl"
  shows "\<exists>r m_impl'. stepT c m_impl = Inr (r, m_impl') \<and> all_boxed m_impl'"
proof (cases c)
  case (PushT message)
  with assms show ?thesis
    by (simp add: MessageQueueT_push_def all_boxed_push)
next
  case (PopT dst_message blocking)
  show ?thesis
  proof (cases "MessageQueueT_pop dst_message blocking [] m_impl")
    case None
    with PopT assms show ?thesis by simp
  next
    case (Some r)
    show ?thesis
    proof (cases r)
      case (Inl a)
      with Some MessageQueueT_pop_no_assertion [OF assms, of dst_message blocking "[]" a]
      show ?thesis by simp
    next
      case (Inr t)
      obtain ret dst' m_impl' where t: "t = (ret, dst', m_impl')" by (cases t)
      with Some Inr MessageQueueT_pop_all_boxed [OF assms, of dst_message blocking "[]" ret dst' m_impl']
      show ?thesis using PopT by simp
    qed
  qed
next
  case CancelT
  with assms show ?thesis by (simp add: MessageQueueT_cancel_def all_boxed_cancel)
next
  case Is_cancelledT
  with assms show ?thesis by simp
next
  case SizeT
  with assms show ?thesis by simp
qed

lemma runT_all_boxed:
  "all_boxed m_impl \<Longrightarrow> \<exists>rs m_impl'. runT cs m_impl = Inr (rs, m_impl') \<and> all_boxed m_impl'"
proof (induction cs arbitrary: m_impl)
  case Nil
  then show ?case by simp
next
  case (Cons c cs)
  from stepT_all_boxed [OF Cons.prems, of c]
  obtain r m1 where s: "stepT c m_impl = Inr (r, m1)" and b: "all_boxed m1" by blast
  from Cons.IH [OF b] obtain rs m2 where "runT cs m1 = Inr (rs, m2)" and "all_boxed m2" by blast
  with s show ?case by simp
qed


text \<open>
  Claim C8. In every execution of a typed queue from its construction, where each push is
  the typed push, no assertion of the typed pop fails; and afterwards every handle in the
  queue is non-null and holds a \<^verbatim>\<open>MessageImpl<M>\<close>, a further typed pop, whatever the other
  threads push through the typed queue while it waits, fails no assertion either, and
  every successful pop of the underlying queue yields such a handle.
\<close>

theorem type_recovery:
  "\<exists>answers m_impl.
      runT cs (MessageQueueT max_capacity) = Inr (answers, m_impl)
      \<and> all_boxed m_impl
      \<and> (\<forall>dst_message blocking wakeups a.
            MessageQueueT_pop dst_message blocking wakeups m_impl \<noteq> Some (Inl a))
      \<and> (\<forall>blocking wakeups ret h m_impl'.
            pop None blocking (map (map boxed) wakeups) m_impl = Some (ret, h, m_impl')
            \<and> 0 < ret \<longrightarrow> (\<exists>payload. h = Some (MessageImpl payload)))"
proof -
  from runT_all_boxed [OF all_boxed_create, of cs max_capacity]
  obtain answers m_impl
    where r: "runT cs (MessageQueueT max_capacity) = Inr (answers, m_impl)"
      and b: "all_boxed (m_impl :: 'a Message MessageQueuePosix)"
    by blast
  have "MessageQueueT_pop dst_message blocking wakeups m_impl \<noteq> Some (Inl a)"
    for dst_message blocking wakeups a
    using b by (rule MessageQueueT_pop_no_assertion)
  moreover have "\<exists>payload. h = Some (MessageImpl payload)"
    if "pop None blocking (map (map boxed) wakeups) m_impl = Some (ret, h, m_impl')"
      and "0 < ret" for blocking wakeups ret h m_impl'
    using all_boxed_pop [OF that(1) b] that(2) by (simp add: is_MessageImpl_iff)
  ultimately show ?thesis using r b by blast
qed

theorem type_recovery_witness:
  "runT [PushT (5::nat), PushT 6, PopT 0 True, PopT 0 False, PopT 0 True] (MessageQueueT 1)
    = Inr ([Pushed 1, Pushed 0, Popped 1 5, Popped 0 0, Suspended], MessageQueueT 1)
   \<and> all_boxed (MessageQueueT 1 :: nat Message MessageQueuePosix)
   \<and> MessageQueueT_pop (0::nat) True [[Other_push 7]] (MessageQueueT 1)
        = Some (Inr (1, 7, MessageQueueT 1))
   \<and> MessageQueueT_pop (0::nat) True [[Other_push 7]] (MessageQueueT 1)
        \<noteq> Some (Inl Assert_same_pointer)"
proof -
  have r: "runT [PushT (5::nat), PushT 6, PopT 0 True, PopT 0 False, PopT 0 True] (MessageQueueT 1)
    = Inr ([Pushed 1, Pushed 0, Popped 1 5, Popped 0 0, Suspended], MessageQueueT 1)"
    by (simp add: MessageQueueT_def MessageQueueT_push_def
      MessageQueueT_pop_def create_def push_def pop_def pop_nonblocking_def
      pop_blocking_loop_Nil deque_size_def push_back_def front_def pop_front_def)
  have p: "MessageQueueT_pop (0::nat) True [[Other_push 7]] (MessageQueueT 1)
    = Some (Inr (1, 7, MessageQueueT 1))"
    by (simp add: MessageQueueT_def MessageQueueT_pop_def create_def push_def pop_def
      pop_blocking_loop_Nil pop_blocking_loop_Cons cond_wait_def
      deque_size_def push_back_def front_def pop_front_def)
  show ?thesis
    using type_recovery
      [of "[PushT (5::nat), PushT 6, PopT 0 True, PopT 0 False, PopT 0 True]" 1]
    unfolding r by (simp add: p)
qed

end
